theory Spec2Isabelle
  imports Main "HOL-Library.Multiset"
begin

section \<open>Swiftly's Concurrency class (swiftly/concurrency.py)\<close>

subsection \<open>Python values, exception classes and the module globals\<close>

text \<open>
  A Python class is given by its method resolution order: its own name first, then the names
  of its bases. \<open>isinstance(e, K)\<close> holds when \<open>K\<close> occurs in the MRO of the class of \<open>e\<close>.
  A value that may be Python's \<open>None\<close> is an \<open>option\<close>, \<open>None\<close> being \<open>None\<close>.
\<close>

type_synonym py_class = "string list"

text \<open>What \<open>sys.exc_info()\<close> yields inside a handler: the class, the exception, the traceback.\<close>

type_synonym exc_info = "py_class \<times> string \<times> string list"

text \<open>The tuple \<open>(exc_type, exc_value, exc_tb, result)\<close> that \<open>_spawner\<close> puts on the queue.\<close>

type_synonym 'v outcome = "py_class option \<times> string option \<times> string list option \<times> 'v option"

text \<open>
  A unit of work \<open>func(*args, **kwargs)\<close> is an opaque callable that is run to its end once:
  it hands back a value (possibly \<open>None\<close>) or raises an exception.
\<close>

datatype 'v behaviour = Returns "'v option" | Raises py_class string "string list"

text \<open>
  The module tries \<open>from eventlet import GreenPool, sleep, Timeout\<close>; on ImportError it binds
  \<open>GreenPool = None\<close>, \<open>sleep = None\<close> and \<open>Timeout = Exception\<close>. The flag \<open>ev\<close> says whether
  the import succeeded. eventlet's Timeout derives from BaseException, not from Exception.
\<close>

definition GreenPool :: "bool \<Rightarrow> bool" where
  "GreenPool ev = ev"

definition Timeout :: "bool \<Rightarrow> string" where
  "Timeout ev = (if ev then ''eventlet.timeout.Timeout'' else ''Exception'')"

text \<open>The clause \<open>except (Exception, Timeout)\<close>: which raised classes it handles.\<close>

definition caught :: "bool \<Rightarrow> py_class \<Rightarrow> bool" where
  "caught ev c = (''Exception'' \<in> set c \<or> Timeout ev \<in> set c)"

subsection \<open>The engine's state\<close>

text \<open>
  The result dict is an object on a heap of dicts and the engine holds a reference to it,
  so that handing the dict out and updating it in place can be told from copying it.
  \<open>pool\<close> is \<open>self._pool\<close>: \<open>None\<close>, or the GreenPool with the units it has accepted and that
  have not finished yet.
\<close>

type_synonym ref = nat

record ('i, 'v) state =
  concurrency :: nat
  pool :: "('i \<times> 'v behaviour) list option"
  queue :: "('i \<times> 'v outcome) list"
  results :: ref
  heap :: "ref \<Rightarrow> ('i \<rightharpoonup> 'v outcome)"

definition store :: "('i, 'v) state \<Rightarrow> ('i \<rightharpoonup> 'v outcome)" where
  "store s = heap s (results s)"

text \<open>\<open>__init__\<close>: the pool exists when \<open>self.concurrency and GreenPool\<close> is true.\<close>

definition init :: "bool \<Rightarrow> nat \<Rightarrow> ('i, 'v) state" where
  "init ev c =
     \<lparr>concurrency = c,
      pool = (if c \<noteq> 0 \<and> GreenPool ev then Some [] else None),
      queue = [],
      results = 0,
      heap = (\<lambda>_. Map.empty)\<rparr>"

subsection \<open>The worker wrapper\<close>

text \<open>
  \<open>_spawner\<close>: runs the unit, and puts \<open>(ident, (exc_type, exc_value, exc_tb, result))\<close> on the
  queue. An exception the \<open>except\<close> clause does not handle leaves \<open>_spawner\<close> before the
  \<open>put\<close>: the first component of the result is the exception that propagates, if any.
\<close>

fun spawner :: "bool \<Rightarrow> 'i \<Rightarrow> 'v behaviour \<Rightarrow> ('i, 'v) state \<Rightarrow> exc_info option \<times> ('i, 'v) state" where
  "spawner ev ident (Returns r) s =
     (None, s\<lparr>queue := queue s @ [(ident, (None, None, None, r))]\<rparr>)"
| "spawner ev ident (Raises c v tb) s =
     (if caught ev c
      then (None, s\<lparr>queue := queue s @ [(ident, (Some c, Some v, Some tb, None))]\<rparr>)
      else (Some (c, v, tb), s))"

subsection \<open>The pool\<close>

text \<open>
  Modelled from the spec: eventlet's GreenPool (\<open>spawn_n\<close>, \<open>waitall\<close>) and \<open>sleep\<close> are not
  under src/. The pool runs a callable without blocking the caller, queueing it while all
  slots are busy; \<open>sleep\<close> yields so that scheduled callables run; \<open>waitall\<close> returns when every
  accepted callable has finished; the limiter itself never fails. Units finish in any order:
  a schedule, a list of positions in the list of unfinished units, picks who finishes next.
  \<open>complete\<close> is the end of one green thread: the unit at position \<open>k\<close> leaves the pool and
  its \<open>_spawner\<close> call takes effect; an exception leaving \<open>_spawner\<close> ends the green thread only.
\<close>

definition complete :: "bool \<Rightarrow> nat \<Rightarrow> ('i, 'v) state \<Rightarrow> ('i, 'v) state" where
  "complete ev k s =
     (case pool s of
        None \<Rightarrow> s
      | Some us \<Rightarrow>
          if k < length us
          then snd (spawner ev (fst (us ! k)) (snd (us ! k))
                      (s\<lparr>pool := Some (take k us @ drop (Suc k) us)\<rparr>))
          else s)"

definition sleep :: "bool \<Rightarrow> nat list \<Rightarrow> ('i, 'v) state \<Rightarrow> ('i, 'v) state" where
  "sleep ev ks s = fold (complete ev) ks s"

definition spawn_n :: "'i \<Rightarrow> 'v behaviour \<Rightarrow> ('i, 'v) state \<Rightarrow> ('i, 'v) state" where
  "spawn_n ident func s =
     (case pool s of None \<Rightarrow> s | Some us \<Rightarrow> s\<lparr>pool := Some (us @ [(ident, func)])\<rparr>)"

fun finish_all :: "bool \<Rightarrow> nat \<Rightarrow> nat list \<Rightarrow> ('i, 'v) state \<Rightarrow> ('i, 'v) state" where
  "finish_all ev 0 ks s = s"
| "finish_all ev (Suc n) ks s =
     finish_all ev n (tl ks) (complete ev (case ks of [] \<Rightarrow> 0 | k # _ \<Rightarrow> k mod Suc n) s)"

definition waitall :: "bool \<Rightarrow> nat list \<Rightarrow> ('i, 'v) state \<Rightarrow> ('i, 'v) state" where
  "waitall ev ks s =
     (case pool s of None \<Rightarrow> s | Some us \<Rightarrow> finish_all ev (length us) ks s)"

subsection \<open>The public methods\<close>

text \<open>
  \<open>spawn\<close>: with a pool, \<open>spawn_n\<close> then \<open>sleep()\<close>; without one, \<open>_spawner\<close> runs in the caller and
  what it raises reaches the caller. \<open>ks\<close> is the schedule of the yield.
\<close>

definition spawn ::
  "bool \<Rightarrow> nat list \<Rightarrow> 'i \<Rightarrow> 'v behaviour \<Rightarrow> ('i, 'v) state \<Rightarrow> exc_info option \<times> ('i, 'v) state" where
  "spawn ev ks ident func s =
     (case pool s of
        Some us \<Rightarrow> (None, sleep ev ks (spawn_n ident func s))
      | None \<Rightarrow> spawner ev ident func s)"

text \<open>The loop of \<open>get_results\<close>: take pairs off the queue until it is empty.\<close>

fun drain :: "('i \<times> 'v outcome) list \<Rightarrow> ('i \<rightharpoonup> 'v outcome) \<Rightarrow> ('i \<rightharpoonup> 'v outcome)" where
  "drain [] m = m"
| "drain ((ident, val) # q) m = drain q (m(ident \<mapsto> val))"

text \<open>\<open>get_results\<close> returns \<open>self._results\<close>, the reference, after updating the dict in place.\<close>

definition get_results :: "('i, 'v) state \<Rightarrow> ref \<times> ('i, 'v) state" where
  "get_results s =
     (results s,
      s\<lparr>queue := [], heap := (heap s)(results s := drain (queue s) (heap s (results s)))\<rparr>)"

definition join :: "bool \<Rightarrow> nat list \<Rightarrow> ('i, 'v) state \<Rightarrow> ('i, 'v) state" where
  "join ev ks s = (case pool s of Some us \<Rightarrow> waitall ev ks s | None \<Rightarrow> s)"

subsection \<open>Sequences of calls\<close>

datatype ('i, 'v) call = Spawn "nat list" 'i "'v behaviour" | Get_results | Join "nat list"

text \<open>The state a call leaves behind, whether it returned or raised.\<close>

fun exec :: "bool \<Rightarrow> ('i, 'v) call \<Rightarrow> ('i, 'v) state \<Rightarrow> ('i, 'v) state" where
  "exec ev (Spawn ks ident func) s = snd (spawn ev ks ident func s)"
| "exec ev Get_results s = snd (get_results s)"
| "exec ev (Join ks) s = join ev ks s"

definition run :: "bool \<Rightarrow> ('i, 'v) call list \<Rightarrow> ('i, 'v) state \<Rightarrow> ('i, 'v) state" where
  "run ev cs s = fold (exec ev) cs s"

subsection \<open>What a unit is expected to leave in the store\<close>

fun outcome_of :: "'v behaviour \<Rightarrow> 'v outcome" where
  "outcome_of (Returns r) = (None, None, None, r)"
| "outcome_of (Raises c v tb) = (Some c, Some v, Some tb, None)"

fun finishes :: "bool \<Rightarrow> 'v behaviour \<Rightarrow> bool" where
  "finishes ev (Returns r) = True"
| "finishes ev (Raises c v tb) = caught ev c"

definition in_flight :: "('i, 'v) state \<Rightarrow> ('i \<times> 'v behaviour) list" where
  "in_flight s = (case pool s of None \<Rightarrow> [] | Some us \<Rightarrow> us)"

text \<open>The pairs that a list of unfinished units will put on the queue when they finish.\<close>

definition pairs_of :: "bool \<Rightarrow> ('i \<times> 'v behaviour) list \<Rightarrow> ('i \<times> 'v outcome) list" where
  "pairs_of ev us = map (\<lambda>u. (fst u, outcome_of (snd u))) (filter (\<lambda>u. finishes ev (snd u)) us)"

text \<open>
  \<open>grows ev s s' new\<close>: from \<open>s\<close> to \<open>s'\<close> the queue gained exactly \<open>new\<close> at its end, the pairs
  of the units that finished in between, and nothing else of the engine changed.
\<close>

definition grows :: "bool \<Rightarrow> ('i, 'v) state \<Rightarrow> ('i, 'v) state \<Rightarrow> ('i \<times> 'v outcome) list \<Rightarrow> bool" where
  "grows ev s s' new =
     (queue s' = queue s @ new
      \<and> mset new + mset (pairs_of ev (in_flight s')) = mset (pairs_of ev (in_flight s))
      \<and> heap s' = heap s \<and> results s' = results s \<and> concurrency s' = concurrency s
      \<and> (pool s' = None \<longleftrightarrow> pool s = None))"

section \<open>Properties\<close>

subsection \<open>The drain\<close>

lemma drain_eq: "drain q m = m ++ map_of (rev q)"
  by (induction q arbitrary: m) (auto simp: map_add_upd_left)

subsection \<open>The pool only appends to the queue\<close>

lemma grows_refl: "grows ev s s []"
  by (simp add: grows_def)

lemma grows_trans: "grows ev s s' n1 \<Longrightarrow> grows ev s' s'' n2 \<Longrightarrow> grows ev s s'' (n1 @ n2)"
  by (auto simp: grows_def ac_simps)

lemma pairs_of_append: "pairs_of ev (us @ vs) = pairs_of ev us @ pairs_of ev vs"
  by (simp add: pairs_of_def)

lemma pairs_of_single:
  "pairs_of ev [(i, f)] = (if finishes ev f then [(i, outcome_of f)] else [])"
  by (simp add: pairs_of_def)

lemma spawner_queue:
  "queue (snd (spawner ev i f s)) = queue s @ pairs_of ev [(i, f)]"
  by (cases f) (auto simp: pairs_of_def)

lemma spawner_frame:
  "heap (snd (spawner ev i f s)) = heap s" "results (snd (spawner ev i f s)) = results s"
  "pool (snd (spawner ev i f s)) = pool s" "concurrency (snd (spawner ev i f s)) = concurrency s"
  by (cases f; simp)+

lemma complete_grows: "\<exists>new. grows ev s (complete ev k s) new"
proof (cases "pool s")
  case None
  then show ?thesis by (auto simp: complete_def intro: grows_refl)
next
  case (Some us)
  show ?thesis
  proof (cases "k < length us")
    case False
    with Some show ?thesis by (auto simp: complete_def intro: grows_refl)
  next
    case True
    let ?rest = "take k us @ drop (Suc k) us"
    let ?s' = "s\<lparr>pool := Some ?rest\<rparr>"
    have us: "us = take k us @ [us ! k] @ drop (Suc k) us"
      using True by (simp add: id_take_nth_drop)
    have "pairs_of ev us = pairs_of ev (take k us) @ pairs_of ev [us ! k] @ pairs_of ev (drop (Suc k) us)"
      by (subst us) (simp only: pairs_of_append)
    then have m: "mset (pairs_of ev [us ! k]) + mset (pairs_of ev ?rest) = mset (pairs_of ev us)"
      by (simp add: pairs_of_append)
    have c: "complete ev k s = snd (spawner ev (fst (us ! k)) (snd (us ! k)) ?s')"
      using Some True by (simp add: complete_def)
    have "grows ev s (complete ev k s) (pairs_of ev [us ! k])"
      unfolding grows_def c using m Some
      by (simp add: spawner_queue spawner_frame in_flight_def)
    then show ?thesis ..
  qed
qed

lemma sleep_grows: "\<exists>new. grows ev s (sleep ev ks s) new"
proof (induction ks arbitrary: s)
  case Nil
  show ?case by (auto simp: sleep_def intro: grows_refl)
next
  case (Cons k ks)
  obtain n1 where 1: "grows ev s (complete ev k s) n1"
    using complete_grows by blast
  obtain n2 where 2: "grows ev (complete ev k s) (sleep ev ks (complete ev k s)) n2"
    using Cons.IH by blast
  have "sleep ev (k # ks) s = sleep ev ks (complete ev k s)"
    by (simp add: sleep_def)
  with grows_trans [OF 1 2] show ?case by auto
qed

lemma finish_all_grows: "\<exists>new. grows ev s (finish_all ev n ks s) new"
proof (induction n arbitrary: s ks)
  case 0
  show ?case by (auto intro: grows_refl)
next
  case (Suc n)
  let ?k = "case ks of [] \<Rightarrow> 0 | k # _ \<Rightarrow> k mod Suc n"
  obtain n1 where 1: "grows ev s (complete ev ?k s) n1"
    using complete_grows by blast
  obtain n2 where 2: "grows ev (complete ev ?k s) (finish_all ev n (tl ks) (complete ev ?k s)) n2"
    using Suc.IH by blast
  from grows_trans [OF 1 2] show ?case by auto
qed

lemma complete_length:
  "pool s = Some us \<Longrightarrow> k < length us \<Longrightarrow>
   \<exists>vs. pool (complete ev k s) = Some vs \<and> Suc (length vs) = length us"
  by (auto simp: complete_def spawner_frame)

lemma finish_all_empties:
  "pool s = Some us \<Longrightarrow> length us = n \<Longrightarrow> pool (finish_all ev n ks s) = Some []"
proof (induction n arbitrary: s ks us)
  case 0
  then show ?case by simp
next
  case (Suc n)
  let ?k = "case ks of [] \<Rightarrow> 0 | k # _ \<Rightarrow> k mod Suc n"
  have "?k < length us"
    using Suc.prems by (auto split: list.splits)
  from complete_length [OF Suc.prems(1) this, of ev] Suc.prems(2)
  obtain vs where "pool (complete ev ?k s) = Some vs" "length vs = n"
    by auto
  from Suc.IH [OF this] show ?case by simp
qed

lemma join_grows: "\<exists>new. grows ev s (join ev ks s) new"
  by (cases "pool s") (auto simp: join_def waitall_def intro: grows_refl finish_all_grows)

lemma join_in_flight: "in_flight (join ev ks s) = []"
  by (cases "pool s") (auto simp: join_def waitall_def in_flight_def finish_all_empties)

lemma spawn_grows:
  "\<exists>new. queue (snd (spawn ev ks i f s)) = queue s @ new
     \<and> mset new + mset (pairs_of ev (in_flight (snd (spawn ev ks i f s))))
         = mset (pairs_of ev (in_flight s)) + mset (pairs_of ev [(i, f)])
     \<and> heap (snd (spawn ev ks i f s)) = heap s
     \<and> results (snd (spawn ev ks i f s)) = results s
     \<and> concurrency (snd (spawn ev ks i f s)) = concurrency s
     \<and> (pool (snd (spawn ev ks i f s)) = None \<longleftrightarrow> pool s = None)"
proof (cases "pool s")
  case None
  then show ?thesis
    by (simp add: spawn_def spawner_queue spawner_frame in_flight_def)
next
  case (Some us)
  obtain new where "grows ev (spawn_n i f s) (sleep ev ks (spawn_n i f s)) new"
    using sleep_grows by blast
  with Some show ?thesis
    by (auto simp: spawn_def grows_def spawn_n_def in_flight_def pairs_of_append)
qed

lemma store_spawn: "store (snd (spawn ev ks i f s)) = store s"
  using spawn_grows [of ev ks i f s] by (auto simp: store_def)

lemma store_join: "store (join ev ks s) = store s"
  using join_grows [of ev s ks] by (auto simp: store_def grows_def)

lemma store_get_results: "store (snd (get_results s)) = store s ++ map_of (rev (queue s))"
  by (simp add: get_results_def store_def drain_eq)

lemma exec_results: "results (exec ev c s) = results s"
proof (cases c)
  case (Spawn ks i f)
  then show ?thesis using spawn_grows [of ev ks i f s] by auto
next
  case Get_results
  then show ?thesis by (simp add: get_results_def)
next
  case (Join ks)
  then show ?thesis using join_grows [of ev s ks] by (auto simp: grows_def)
qed

lemma exec_pool: "pool (exec ev c s) = None \<longleftrightarrow> pool s = None"
proof (cases c)
  case (Spawn ks i f)
  then show ?thesis using spawn_grows [of ev ks i f s] by auto
next
  case Get_results
  then show ?thesis by (simp add: get_results_def)
next
  case (Join ks)
  then show ?thesis using join_grows [of ev s ks] by (auto simp: grows_def)
qed

lemma run_results: "results (run ev cs s) = results s"
  by (induction cs arbitrary: s) (simp_all add: run_def exec_results)

lemma run_pool: "pool (run ev cs s) = None \<longleftrightarrow> pool s = None"
  by (induction cs arbitrary: s) (simp_all add: run_def exec_pool)

lemma exec_dom: "dom (store s) \<subseteq> dom (store (exec ev c s))"
  by (cases c) (auto simp: store_spawn store_join store_get_results)

lemma run_dom: "dom (store s) \<subseteq> dom (store (run ev cs s))"
proof (induction cs arbitrary: s)
  case Nil
  show ?case by (simp add: run_def)
next
  case (Cons c cs)
  have "dom (store s) \<subseteq> dom (store (exec ev c s))" by (rule exec_dom)
  also have "\<dots> \<subseteq> dom (store (run ev cs (exec ev c s)))" by (rule Cons.IH)
  finally show ?case by (simp add: run_def)
qed


lemma pairs_of_Nil: "pairs_of ev [] = []"
  by (simp add: pairs_of_def)


lemma sync_pool: "c = 0 \<or> \<not> ev \<Longrightarrow> pool (run ev cs (init ev c)) = None"
  by (auto simp: run_pool init_def GreenPool_def)

lemma spawner_returns_finishes: "fst (spawner ev i f s) = None \<Longrightarrow> finishes ev f"
  by (cases f) (auto split: if_splits)

lemma spawns_grow:
  "\<exists>new. queue (run ev (map (\<lambda>u. Spawn (fst u) (fst (snd u)) (snd (snd u))) us) s) = queue s @ new
     \<and> mset new + mset (pairs_of ev (in_flight (run ev (map (\<lambda>u. Spawn (fst u) (fst (snd u)) (snd (snd u))) us) s)))
         = mset (pairs_of ev (in_flight s)) + mset (pairs_of ev (map snd us))
     \<and> heap (run ev (map (\<lambda>u. Spawn (fst u) (fst (snd u)) (snd (snd u))) us) s) = heap s
     \<and> results (run ev (map (\<lambda>u. Spawn (fst u) (fst (snd u)) (snd (snd u))) us) s) = results s"
proof (induction us arbitrary: s)
  case Nil
  show ?case by (simp add: run_def pairs_of_def)
next
  case (Cons u us)
  let ?s1 = "snd (spawn ev (fst u) (fst (snd u)) (snd (snd u)) s)"
  let ?r = "\<lambda>s. run ev (map (\<lambda>u. Spawn (fst u) (fst (snd u)) (snd (snd u))) us) s"
  have r: "run ev (map (\<lambda>u. Spawn (fst u) (fst (snd u)) (snd (snd u))) (u # us)) s = ?r ?s1"
    by (simp add: run_def)
  obtain n1 where 1: "queue ?s1 = queue s @ n1"
    "mset n1 + mset (pairs_of ev (in_flight ?s1))
       = mset (pairs_of ev (in_flight s)) + mset (pairs_of ev [(fst (snd u), snd (snd u))])"
    "heap ?s1 = heap s" "results ?s1 = results s"
    using spawn_grows [of ev "fst u" "fst (snd u)" "snd (snd u)" s] by blast
  obtain n2 where 2: "queue (?r ?s1) = queue ?s1 @ n2"
    "mset n2 + mset (pairs_of ev (in_flight (?r ?s1)))
       = mset (pairs_of ev (in_flight ?s1)) + mset (pairs_of ev (map snd us))"
    "heap (?r ?s1) = heap ?s1" "results (?r ?s1) = results ?s1"
    using Cons.IH [of ?s1] by blast
  have p: "pairs_of ev (map snd (u # us)) = pairs_of ev [(fst (snd u), snd (snd u))] @ pairs_of ev (map snd us)"
    by (simp add: pairs_of_def)
  have "mset (n1 @ n2) + mset (pairs_of ev (in_flight (?r ?s1)))
      = mset (pairs_of ev (in_flight s)) + mset (pairs_of ev (map snd (u # us)))"
    unfolding p using 1(2) 2(2) by (simp add: ac_simps)
  with 1 2 show ?case unfolding r by (intro exI [of _ "n1 @ n2"]) simp
qed

subsection \<open>The claims\<close>


text \<open>
  C9. Every tuple \<open>(exc_type, exc_value, exc_tb, result)\<close> that \<open>_spawner\<close> puts on the queue
  is of one of two shapes: the unit returned, the three exception fields are \<open>None\<close> and
  \<open>result\<close> is the returned value; or an exception was handled, the three fields hold what
  \<open>sys.exc_info()\<close> gave and \<open>result\<close> is \<open>None\<close>. So \<open>exc_type\<close> is \<open>None\<close> exactly when no
  exception was handled. \<open>_spawner\<close> puts at most this one pair, under the unit's identifier.
\<close>

theorem spawner_outcome_exclusive:
  assumes "queue (snd (spawner ev ident func s)) = queue s @ pub"
    and "(i, (t, v, tb, r)) \<in> set pub"
  shows "pub = [(ident, (t, v, tb, r))]
    \<and> ((t = None \<and> v = None \<and> tb = None \<and> func = Returns r)
       \<or> (r = None \<and> (\<exists>c m b. func = Raises c m b \<and> caught ev c
              \<and> t = Some c \<and> v = Some m \<and> tb = Some b)))
    \<and> (t = None \<longleftrightarrow> (\<exists>x. func = Returns x))"
  using assms by (cases func) (auto split: if_splits)

theorem spawner_outcome_exclusive_witness:
  "queue (snd (spawner True (1::nat) (Returns (Some (2::nat))) (init True 3)))
     = queue (init True 3) @ [(1, (None, None, None, Some 2))]
   \<and> (1, (None, None, None, Some 2)) \<in> set [(1::nat, (None, None, None, Some (2::nat)))]
   \<and> (None = (None :: py_class option) \<longleftrightarrow> (\<exists>x. Returns (Some (2::nat)) = Returns x))"
  using spawner_outcome_exclusive [of True "1::nat" "Returns (Some (2::nat))" "init True 3"
      "[(1, (None, None, None, Some 2))]" 1 None None None "Some 2"]
  by (simp add: init_def)




text \<open>
  C7. Two pairs with the same identifier: once the drain has taken both, the store holds
  under that identifier the Outcome of the pair it took last, whether the earlier pair was
  taken by the same drain or by an earlier one, and \<open>get_results\<close> raises nothing.
\<close>

theorem last_write_wins:
  assumes "queue s = q1 @ [(ident, o1)] @ q2 @ [(ident, o2)] @ q3
           \<or> (store s ident = Some o1 \<and> queue s = q2 @ [(ident, o2)] @ q3)"
    and "ident \<notin> fst ` set q3"
  shows "store (snd (get_results s)) ident = Some o2"
proof -
  have n: "map_of (rev q3) ident = None"
    using assms(2) by (simp add: map_of_eq_None_iff)
  from assms(1) show ?thesis
    by (auto simp: store_get_results map_add_def n)
qed

theorem last_write_wins_witness:
  "queue (run False [Spawn [] (1::nat) (Returns (Some (5::nat))), Spawn [] 1 (Returns (Some 7))]
            (init False 0))
     = [] @ [(1, (None, None, None, Some 5))] @ [] @ [(1, (None, None, None, Some 7))] @ []
   \<and> (1::nat) \<notin> fst ` set ([] :: (nat \<times> nat outcome) list)
   \<and> store (snd (get_results
        (run False [Spawn [] (1::nat) (Returns (Some (5::nat))), Spawn [] 1 (Returns (Some 7))]
            (init False 0)))) 1 = Some (None, None, None, Some 7)"
proof -
  let ?s = "run False [Spawn [] (1::nat) (Returns (Some (5::nat))), Spawn [] 1 (Returns (Some 7))]
              (init False 0)"
  have q: "queue ?s = [] @ [(1, (None, None, None, Some 5))] @ [] @ [(1, (None, None, None, Some 7))] @ []"
    by (simp add: run_def spawn_def init_def GreenPool_def)
  have e: "(1::nat) \<notin> fst ` set ([] :: (nat \<times> nat outcome) list)" by simp
  from last_write_wins [of ?s "[]" 1 "(None, None, None, Some 5)" "[]" "(None, None, None, Some 7)" "[]"]
    q e
  have "store (snd (get_results ?s)) 1 = Some (None, None, None, Some 7)" by blast
  with q e show ?thesis by blast
qed




text \<open>
  C6, as stated, fails: a drained pair whose identifier is already in the store replaces
  the Outcome stored there, so the earlier identifier-to-Outcome entry is no longer in the
  store.
\<close>

theorem entry_overwritten_counterexample:
  "store (run False [Spawn [] (1::nat) (Returns (Some (5::nat))), Get_results] (init False 0)) 1
     = Some (None, None, None, Some 5)
   \<and> store (run False [Spawn [] 1 (Returns (Some 7)), Get_results]
        (run False [Spawn [] (1::nat) (Returns (Some (5::nat))), Get_results] (init False 0))) 1
     = Some (None, None, None, Some 7)"
  by (simp add: run_def spawn_def get_results_def store_def init_def GreenPool_def)

text \<open>
  C6, amended. No call of \<open>spawn\<close>, \<open>get_results\<close> or \<open>join\<close> removes an identifier from the
  store: across any sequence of calls the set of stored identifiers stays the same or grows.
  The Outcome stored under an identifier changes only when \<open>get_results\<close> drains a pair with
  that identifier.
\<close>

theorem store_keys_monotone:
  "dom (store s) \<subseteq> dom (store (run ev cs s))
   \<and> (store (exec ev c s) k \<noteq> store s k \<longrightarrow> c = Get_results \<and> k \<in> fst ` set (queue s))"
proof -
  have "c = Get_results \<and> k \<in> fst ` set (queue s)" if d: "store (exec ev c s) k \<noteq> store s k"
  proof (cases c)
    case (Spawn ks i f)
    with d show ?thesis by (simp add: store_spawn)
  next
    case (Join ks)
    with d show ?thesis by (simp add: store_join)
  next
    case Get_results
    with d have "map_of (rev (queue s)) k \<noteq> None"
      by (auto simp: store_get_results map_add_def split: option.splits)
    then have "k \<in> fst ` set (rev (queue s))"
      by (simp only: map_of_eq_None_iff not_not)
    with Get_results show ?thesis by simp
  qed
  with run_dom [of s ev cs] show ?thesis by blast
qed

theorem store_keys_monotone_witness:
  "store (exec False Get_results (snd (spawn False [] (1::nat) (Returns (Some (5::nat))) (init False 0)))) 1
     \<noteq> store (snd (spawn False [] (1::nat) (Returns (Some (5::nat))) (init False 0))) 1
   \<and> (1::nat) \<in> fst ` set (queue (snd (spawn False [] (1::nat) (Returns (Some (5::nat))) (init False 0))))
   \<and> dom (store (init False 0 :: (nat, nat) state))
       \<subseteq> dom (store (run False [Spawn [] (1::nat) (Returns (Some (5::nat))), Get_results] (init False 0)))"
proof -
  let ?s = "snd (spawn False [] (1::nat) (Returns (Some (5::nat))) (init False 0))"
  have d: "store (exec False Get_results ?s) 1 \<noteq> store ?s 1"
    by (simp add: spawn_def get_results_def store_def init_def GreenPool_def)
  from store_keys_monotone [of "init False 0 :: (nat, nat) state" False
      "[Spawn [] (1::nat) (Returns (Some (5::nat))), Get_results]"]
  have a: "dom (store (init False 0 :: (nat, nat) state))
       \<subseteq> dom (store (run False [Spawn [] (1::nat) (Returns (Some (5::nat))), Get_results] (init False 0)))"
    by blast
  from store_keys_monotone [of ?s False "[]" Get_results 1] d
  have "(1::nat) \<in> fst ` set (queue ?s)" by blast
  with d a show ?thesis by blast
qed

text \<open>
  C10. \<open>get_results\<close> returns the engine's own result dict, not a copy: every call returns
  the one reference \<open>self._results\<close>, which no method ever rebinds, and the drain updates the
  dict behind it in place. So the mapping obtained from an earlier call, looked at after any
  further calls and a later drain, is the store as that later drain left it.
\<close>

theorem get_results_returns_store_itself:
  "fst (get_results s) = results s
   \<and> fst (get_results (run ev cs (snd (get_results s)))) = fst (get_results s)
   \<and> heap (snd (get_results (run ev cs (snd (get_results s))))) (fst (get_results s))
       = drain (queue (run ev cs (snd (get_results s)))) (store (run ev cs (snd (get_results s))))"
proof -
  have r: "results (run ev cs (snd (get_results s))) = results s"
    by (simp add: run_results get_results_def)
  show ?thesis
    by (simp add: get_results_def [of "run ev cs (snd (get_results s))"] r store_def)
       (simp add: get_results_def)
qed



text \<open>
  C4. An engine built with \<open>concurrency = 0\<close>, or without eventlet, has no pool, whatever
  calls were made on it since. Every \<open>spawn(X, ...)\<close> that returns has run the unit in the
  caller: nothing is left in flight, and the first drain after it, with no \<open>join\<close>, finds the
  unit's Outcome in the store under \<open>X\<close>.
\<close>

theorem degraded_mode_synchronous:
  assumes "c = 0 \<or> \<not> ev"
    and "fst (spawn ev ks X f (run ev cs (init ev c))) = None"
  shows "in_flight (snd (spawn ev ks X f (run ev cs (init ev c)))) = []
    \<and> store (snd (get_results (snd (spawn ev ks X f (run ev cs (init ev c)))))) X
        = Some (outcome_of f)"
proof -
  let ?s = "run ev cs (init ev c)"
  have p: "pool ?s = None" using assms(1) by (rule sync_pool)
  then have sp: "spawn ev ks X f ?s = spawner ev X f ?s"
    by (simp add: spawn_def)
  with assms(2) have fin: "finishes ev f"
    by (simp add: spawner_returns_finishes)
  have "queue (snd (spawn ev ks X f ?s)) = queue ?s @ [(X, outcome_of f)]"
    using fin by (simp add: sp spawner_queue pairs_of_single)
  moreover have "in_flight (snd (spawn ev ks X f ?s)) = []"
    using p by (simp add: sp in_flight_def spawner_frame)
  ultimately show ?thesis
    by (simp add: store_get_results map_add_def)
qed


theorem degraded_mode_synchronous_witness:
  "fst (spawn True [] (1::nat) (Returns (Some (2::nat))) (run True [] (init True 0))) = None
   \<and> store (snd (get_results (snd (spawn True [] (1::nat) (Returns (Some (2::nat)))
        (run True [] (init True 0)))))) 1 = Some (outcome_of (Returns (Some 2)))"
proof -
  have a: "(0::nat) = 0 \<or> \<not> True" by simp
  have b: "fst (spawn True [] (1::nat) (Returns (Some (2::nat))) (run True [] (init True 0))) = None"
    by (simp add: run_def spawn_def init_def)
  from degraded_mode_synchronous [OF a b] b show ?thesis by blast
qed

text \<open>
  C3, as stated, fails: a unit that raises an exception outside \<open>(Exception, Timeout)\<close>
  leaves no pair on the queue. One unit spawned under the identifier 1 on a fresh engine
  with ceiling 1, then \<open>join\<close> and \<open>get_results\<close>: the store is empty, with eventlet (the
  green thread ends without a \<open>put\<close>) and without it (the exception leaves \<open>spawn\<close>).
\<close>

theorem unit_without_entry_counterexample:
  "store (snd (get_results (join True []
      (run True [Spawn [] (1::nat) (Raises [''SystemExit'', ''BaseException'', ''object''] ''fatal'' [''frame''])]
         (init True 1 :: (nat, nat) state))))) = Map.empty
   \<and> store (snd (get_results (join False []
      (run False [Spawn [] (1::nat) (Raises [''SystemExit'', ''BaseException'', ''object''] ''fatal'' [''frame''])]
         (init False 1 :: (nat, nat) state))))) = Map.empty"
  by (simp add: run_def spawn_def spawn_n_def sleep_def join_def waitall_def complete_def
      get_results_def store_def init_def GreenPool_def caught_def Timeout_def)

text \<open>
  C3, amended. N units, each of which returns or raises an error deriving from Exception
  or Timeout, spawned with pairwise distinct identifiers on a fresh engine, for any ceiling
  (\<open>C \<ge> 1\<close> included), with or without eventlet and for any schedule of the pool: after
  \<open>join\<close> and \<open>get_results\<close> the store holds exactly N entries, one per identifier, each the
  Outcome of its unit.
\<close>

theorem all_finishing_units_stored:
  assumes "distinct (map (\<lambda>u. fst (snd u)) us)"
    and "\<forall>u \<in> set us. finishes ev (snd (snd u))"
  shows "store (snd (get_results (join ev js
            (run ev (map (\<lambda>u. Spawn (fst u) (fst (snd u)) (snd (snd u))) us) (init ev c)))))
          = map_of (map (\<lambda>u. (fst (snd u), outcome_of (snd (snd u)))) us)
    \<and> dom (store (snd (get_results (join ev js
            (run ev (map (\<lambda>u. Spawn (fst u) (fst (snd u)) (snd (snd u))) us) (init ev c))))))
          = set (map (\<lambda>u. fst (snd u)) us)
    \<and> card (dom (store (snd (get_results (join ev js
            (run ev (map (\<lambda>u. Spawn (fst u) (fst (snd u)) (snd (snd u))) us) (init ev c)))))))
          = length us"
proof -
  let ?s0 = "init ev c :: ('a, 'b) state"
  let ?s1 = "run ev (map (\<lambda>u. Spawn (fst u) (fst (snd u)) (snd (snd u))) us) ?s0"
  let ?s2 = "join ev js ?s1"
  let ?L = "map (\<lambda>u. (fst (snd u), outcome_of (snd (snd u)))) us"
  have i: "queue ?s0 = []" "in_flight ?s0 = []" "store ?s0 = Map.empty"
    by (simp_all add: init_def in_flight_def store_def)
  obtain n1 where 1: "queue ?s1 = queue ?s0 @ n1"
    "mset n1 + mset (pairs_of ev (in_flight ?s1))
       = mset (pairs_of ev (in_flight ?s0)) + mset (pairs_of ev (map snd us))"
    "heap ?s1 = heap ?s0" "results ?s1 = results ?s0"
    using spawns_grow [of ev us ?s0] by blast
  obtain n2 where 2: "grows ev ?s1 ?s2 n2"
    using join_grows by blast
  have fl: "filter (\<lambda>u. finishes ev (snd u)) (map snd us) = map snd us"
    using assms(2) by (auto simp: filter_id_conv)
  have L: "pairs_of ev (map snd us) = ?L"
    unfolding pairs_of_def fl by simp
  have "mset n2 = mset (pairs_of ev (in_flight ?s1))"
    using 2 by (simp add: grows_def join_in_flight pairs_of_Nil)
  with 1(2) have m: "mset (n1 @ n2) = mset ?L"
    by (simp add: i L pairs_of_Nil)
  have q: "queue ?s2 = n1 @ n2"
    using 1(1) 2 by (simp add: grows_def i)
  have st: "store ?s2 = Map.empty"
    using 1(3,4) 2 i(3) by (simp add: grows_def store_def)
  have dL: "distinct (map fst ?L)"
    using assms(1) by (simp add: comp_def)
  have "mset (map fst (n1 @ n2)) = mset (map fst ?L)"
    using arg_cong [OF m, of "image_mset fst"] by (simp only: mset_map)
  then have "distinct (map fst (n1 @ n2)) \<longleftrightarrow> distinct (map fst ?L)"
    by (rule mset_eq_imp_distinct_iff)
  with dL have "distinct (map fst (n1 @ n2))"
    by blast
  then have dq: "distinct (map fst (rev (n1 @ n2)))"
    by (simp only: rev_map [symmetric] distinct_rev)
  from mset_eq_setD [OF m] have "set (rev (n1 @ n2)) = set ?L"
    by (simp only: set_rev)
  with map_of_inject_set [OF dq dL] have "map_of (rev (n1 @ n2)) = map_of ?L"
    by blast
  then have a: "store (snd (get_results ?s2)) = map_of ?L"
    by (simp add: store_get_results st q)
  have b: "dom (map_of ?L) = set (map (\<lambda>u. fst (snd u)) us)"
    by (simp add: dom_map_of_conv_image_fst image_image)
  have "card (set (map (\<lambda>u. fst (snd u)) us)) = length us"
    using distinct_card [OF assms(1)] by simp
  with a b show ?thesis by simp
qed

theorem all_finishing_units_stored_witness:
  "distinct (map (\<lambda>u. fst (snd u))
      [([], 1::nat, Returns (Some (2::nat))), ([0], 2, Raises [''ZeroDivisionError'', ''ArithmeticError'', ''Exception'', ''BaseException'', ''object''] ''division by zero'' [''frame''])])
   \<and> finishes True (Returns (Some (2::nat)))
   \<and> finishes True (Raises [''ZeroDivisionError'', ''ArithmeticError'', ''Exception'', ''BaseException'', ''object''] ''division by zero'' [''frame''] :: nat behaviour)
   \<and> card (dom (store (snd (get_results (join True [1]
        (run True (map (\<lambda>u. Spawn (fst u) (fst (snd u)) (snd (snd u)))
           [([], 1::nat, Returns (Some (2::nat))),
            ([0], 2, Raises [''ZeroDivisionError'', ''ArithmeticError'', ''Exception'', ''BaseException'', ''object''] ''division by zero'' [''frame''])]) (init True 3)))))))
     = length [([] :: nat list, 1::nat, Returns (Some (2::nat))),
               ([0], 2, Raises [''ZeroDivisionError'', ''ArithmeticError'', ''Exception'', ''BaseException'', ''object''] ''division by zero'' [''frame''])]"
proof -
  let ?us = "[([], 1::nat, Returns (Some (2::nat))),
              ([0], 2, Raises [''ZeroDivisionError'', ''ArithmeticError'', ''Exception'', ''BaseException'', ''object''] ''division by zero'' [''frame''])]"
  have a: "distinct (map (\<lambda>u. fst (snd u)) ?us)" by simp
  have b: "\<forall>u \<in> set ?us. finishes True (snd (snd u))" by (simp add: caught_def)
  have c: "finishes True (Returns (Some (2::nat)))"
    "finishes True (Raises [''ZeroDivisionError'', ''ArithmeticError'', ''Exception'', ''BaseException'', ''object''] ''division by zero'' [''frame''] :: nat behaviour)"
    by (simp_all add: caught_def)
  from all_finishing_units_stored [OF a b, of "[1]" 3] a c show ?thesis by blast
qed

end
